theory Spec2Isabelle
  imports Main "HOL-Library.Product_Lexorder" "HOL-Library.List_Lexorder" "HOL-Library.Char_ord"
    "HOL-Library.Multiset"
begin

section \<open>Python values and errors\<close>

text \<open>
  Exceptions of the Python code are values of type \<open>error\<close>; a function that may raise
  returns \<open>error + 'a\<close> with \<open>Inl\<close> for the exception.  A Python \<open>str\<close> is a
  \<open>string\<close>; a \<open>char\<close> stands for a code point below 256.
\<close>

datatype error =
    ValueError | TypeError | AttributeError | OverflowError | RequestException | EncodingError
  | ParserRejectedMarkup

text \<open>
  What \<open>r.json()\<close> can return.  A JSON number is kept as an integer: nothing modelled here
  looks at a number beyond its truth value and its not being a \<open>str\<close>.  A \<open>PDict\<close> lists
  the items of a dict, keys distinct.
\<close>

datatype pyval =
    PNone
  | PBool bool
  | PInt int
  | PStr string
  | PList "pyval list"
  | PDict "(string \<times> pyval) list"

fun truthy :: "pyval \<Rightarrow> bool" where
  "truthy PNone = False"
| "truthy (PBool b) = b"
| "truthy (PInt i) = (i \<noteq> 0)"
| "truthy (PStr s) = (s \<noteq> [])"
| "truthy (PList xs) = (xs \<noteq> [])"
| "truthy (PDict kvs) = (kvs \<noteq> [])"

section \<open>The regular expressions of \<open>parser.py\<close>\<close>

subsection \<open>Character classes\<close>

definition is_digit :: "char \<Rightarrow> bool" where
  "is_digit c = (c \<in> set ''0123456789'')"

text \<open>\<open>\s\<close> on a \<open>str\<close> pattern, and the separators of \<open>str.split()\<close>: the code points
  below 256 for which \<open>str.isspace\<close> holds.\<close>

definition is_space :: "char \<Rightarrow> bool" where
  "is_space c = ((of_char c :: nat) \<in> {9, 10, 11, 12, 13, 28, 29, 30, 31, 32, 133, 160})"

definition is_upper :: "char \<Rightarrow> bool" where
  "is_upper c = (c \<in> set ''ABCDEFGHIJKLMNOPQRSTUVWXYZ'')"

definition is_lower :: "char \<Rightarrow> bool" where
  "is_lower c = (c \<in> set ''abcdefghijklmnopqrstuvwxyz'')"

text \<open>\<open>[A-Za-z0-9\-]\<close>\<close>

definition is_room_char :: "char \<Rightarrow> bool" where
  "is_room_char c = (is_upper c \<or> is_lower c \<or> is_digit c \<or> c = CHR ''-'')"

text \<open>\<open>['"]\<close>\<close>

definition is_quote :: "char \<Rightarrow> bool" where
  "is_quote c = (c = CHR 0x27 \<or> c = CHR 0x22)"

text \<open>\<open>[^{}]\<close>\<close>

definition not_brace :: "char \<Rightarrow> bool" where
  "not_brace c = (c \<noteq> CHR ''{'' \<and> c \<noteq> CHR ''}'')"

text \<open>\<open>[^\)]\<close>\<close>

definition not_rparen :: "char \<Rightarrow> bool" where
  "not_rparen c = (c \<noteq> CHR '')'')"

text \<open>\<open>[\s\S]\<close>, and \<open>.\<close> under \<open>re.DOTALL\<close>\<close>

definition any_char :: "char \<Rightarrow> bool" where
  "any_char c = True"

subsection \<open>A backtracking matcher\<close>

text \<open>
  The fragment of Python's \<open>re\<close> syntax that the patterns of \<open>parser.py\<close> use: literals,
  one character of a class, a quantified class (\<open>*\<close>, \<open>+\<close>, \<open>{m,n}\<close>, greedy, or lazy
  with \<open>?\<close>), concatenation, alternation, capturing groups (never nested in these
  patterns) and the backreference \<open>\1\<close>.
\<close>

datatype re =
    Lit string
  | Cls "char \<Rightarrow> bool"
  | Rep bool nat "nat option" "char \<Rightarrow> bool"
  | Seq re re
  | Alt re re
  | Grp re
  | Back nat

text \<open>The repetition counts a quantified class tries on a run of \<open>n\<close> matching characters,
  in the order the backtracking engine tries them: longest first when greedy, shortest
  first when lazy.\<close>

definition counts :: "bool \<Rightarrow> nat \<Rightarrow> nat option \<Rightarrow> nat \<Rightarrow> nat list" where
  "counts greedy lo hi n =
     (let top = (case hi of None \<Rightarrow> n | Some h \<Rightarrow> min h n);
          ks = [lo ..< Suc top]
      in if greedy then rev ks else ks)"

text \<open>
  \<open>rmatch r (gs, s)\<close> lists every way \<open>r\<close> matches a prefix of \<open>s\<close>, in the engine's
  order of preference, as the groups captured so far (\<open>gs\<close> extended) and the text left.
  The engine's match is the head of the list.
\<close>

fun rmatch :: "re \<Rightarrow> string list \<times> string \<Rightarrow> (string list \<times> string) list" where
  "rmatch (Lit w) (gs, s) =
     (if take (length w) s = w then [(gs, drop (length w) s)] else [])"
| "rmatch (Cls p) (gs, s) =
     (case s of [] \<Rightarrow> [] | c # cs \<Rightarrow> if p c then [(gs, cs)] else [])"
| "rmatch (Rep greedy lo hi p) (gs, s) =
     map (\<lambda>k. (gs, drop k s)) (counts greedy lo hi (length (takeWhile p s)))"
| "rmatch (Seq a b) st = concat (map (rmatch b) (rmatch a st))"
| "rmatch (Alt a b) st = rmatch a st @ rmatch b st"
| "rmatch (Grp r) (gs, s) =
     map (\<lambda>(gs', rest). (gs' @ [take (length s - length rest) s], rest)) (rmatch r (gs, s))"
| "rmatch (Back n) (gs, s) =
     (if 1 \<le> n \<and> n \<le> length gs \<and> take (length (gs ! (n - 1))) s = gs ! (n - 1)
      then [(gs, drop (length (gs ! (n - 1))) s)] else [])"

text \<open>
  \<open>pattern.search(s)\<close>: the leftmost position with a match, and the engine's match there.
  The result is the matched text (\<open>group(0)\<close>), the groups (\<open>groups()\<close>) and the text
  from \<open>end()\<close> on.  None of the patterns has an anchor or a lookbehind, so
  \<open>pattern.search(s, pos)\<close> is the search in \<open>s[pos:]\<close>.
\<close>

fun search :: "re \<Rightarrow> string \<Rightarrow> (string \<times> string list \<times> string) option" where
  "search r [] =
     (case rmatch r ([], []) of [] \<Rightarrow> None | (gs, rest) # _ \<Rightarrow> Some ([], gs, rest))"
| "search r (c # cs) =
     (case rmatch r ([], c # cs) of
        [] \<Rightarrow> search r cs
      | (gs, rest) # _ \<Rightarrow> Some (take (length (c # cs) - length rest) (c # cs), gs, rest))"

lemma rmatch_rest_le:
  "(gs', rest) \<in> set (rmatch r (gs, s)) \<Longrightarrow> length rest \<le> length s"
proof (induction r arbitrary: gs s gs' rest)
  case (Seq a b)
  then obtain gm mid where a: "(gm, mid) \<in> set (rmatch a (gs, s))"
    and b: "(gs', rest) \<in> set (rmatch b (gm, mid))"
    by auto
  from Seq.IH(1)[OF a] Seq.IH(2)[OF b] show ?case by simp
next
  case (Cls p)
  then show ?case by (auto split: list.splits if_splits)
qed (auto split: if_splits)

lemma search_rest_le:
  "search r s = Some (mt, gs, rest) \<Longrightarrow> length rest \<le> length s"
proof (induction s)
  case Nil
  then show ?case
    using rmatch_rest_le[of _ rest r "[]" "[]"]
    by (auto split: list.splits)
next
  case (Cons c cs)
  show ?case
  proof (cases "rmatch r ([], c # cs)")
    case Nil
    with Cons show ?thesis by simp
  next
    case (Cons m ms)
    obtain g r' where m: "m = (g, r')" by (cases m)
    with Cons Cons.prems have "rest = r'" by simp
    moreover have "(g, r') \<in> set (rmatch r ([], c # cs))" using Cons m by simp
    ultimately show ?thesis using rmatch_rest_le by blast
  qed
qed

lemma search_rest_less:
  "search r s = Some (mt, gs, rest) \<Longrightarrow> mt \<noteq> [] \<Longrightarrow> length rest < length s"
proof (induction s)
  case Nil
  then show ?case by (auto split: list.splits)
next
  case (Cons c cs)
  show ?case
  proof (cases "rmatch r ([], c # cs)")
    case Nil
    with Cons show ?thesis by simp
  next
    case (Cons m ms)
    with \<open>search r (c # cs) = Some (mt, gs, rest)\<close>
    have "mt = take (length (c # cs) - length rest) (c # cs)"
      by (cases m) auto
    with \<open>mt \<noteq> []\<close> show ?thesis by auto
  qed
qed

text \<open>
  \<open>pattern.findall(s)\<close> for a pattern without groups: the texts of the non-overlapping
  matches from left to right.  After an empty match the scan moves on by one character.
\<close>

function findall :: "re \<Rightarrow> string \<Rightarrow> string list" where
  "findall r s =
     (case search r s of
        None \<Rightarrow> []
      | Some (mt, gs, rest) \<Rightarrow>
          if mt = [] then (case rest of [] \<Rightarrow> [[]] | _ # rest' \<Rightarrow> [] # findall r rest')
          else mt # findall r rest)"
  by pat_completeness auto
termination
proof (relation "measure (\<lambda>(r, s). length s)")
  show "wf (measure (\<lambda>(r, s). length s))" by simp
next
  fix r s x2 mt y gs rest c rest'
  assume "search r s = Some x2" "(mt, y) = x2" "(gs, rest) = y" "rest = c # rest'"
  then have "search r s = Some (mt, gs, c # rest')" by simp
  from search_rest_le[OF this]
  show "((r, rest'), (r, s)) \<in> measure (\<lambda>(r, s). length s)" by simp
next
  fix r s x2 mt y gs rest
  assume "search r s = Some x2" "(mt, y) = x2" "(gs, rest) = y" "mt \<noteq> []"
  then have "search r s = Some (mt, gs, rest)" by simp
  from search_rest_less[OF this \<open>mt \<noteq> []\<close>]
  show "((r, rest), (r, s)) \<in> measure (\<lambda>(r, s). length s)" by simp
qed

declare findall.simps [simp del]

subsection \<open>The patterns\<close>

fun seqs :: "re list \<Rightarrow> re" where
  "seqs [] = Lit []"
| "seqs [r] = r"
| "seqs (r # rs) = Seq r (seqs rs)"

text \<open>\<open>\s*\<close>\<close>

definition spaces :: re where
  "spaces = Rep True 0 None is_space"

text \<open>\<^verbatim>\<open>new Date\(\s*(\d{4})\s*,\s*(\d{1,2})\s*,\s*(\d{1,2})\s*,\s*(\d{1,2})\s*,\s*(\d{1,2})\s*\)\<close>\<close>

definition DATE_RE :: re where
  "DATE_RE = seqs
     [Lit ''new Date('', spaces, Grp (Rep True 4 (Some 4) is_digit),
      spaces, Lit '','', spaces, Grp (Rep True 1 (Some 2) is_digit),
      spaces, Lit '','', spaces, Grp (Rep True 1 (Some 2) is_digit),
      spaces, Lit '','', spaces, Grp (Rep True 1 (Some 2) is_digit),
      spaces, Lit '','', spaces, Grp (Rep True 1 (Some 2) is_digit),
      spaces, Lit '')'']"

text \<open>\<^verbatim>\<open>\{[^{}]*?['\"]start['\"]\s*:\s*new Date\([^\)]*\)[\s\S]*?['\"]end['\"]\s*:\s*new Date\([^\)]*\)[\s\S]*?\}\<close>
  (\<open>re.MULTILINE\<close> changes \<open>^\<close> and \<open>$\<close> only, which the pattern does not use.)\<close>

definition EVENT_BLOCK_RE :: re where
  "EVENT_BLOCK_RE = seqs
     [Lit ''{'', Rep False 0 None not_brace,
      Cls is_quote, Lit ''start'', Cls is_quote, spaces, Lit '':'', spaces,
      Lit ''new Date('', Rep True 0 None not_rparen, Lit '')'',
      Rep False 0 None any_char,
      Cls is_quote, Lit ''end'', Cls is_quote, spaces, Lit '':'', spaces,
      Lit ''new Date('', Rep True 0 None not_rparen, Lit '')'',
      Rep False 0 None any_char, Lit ''}'']"

text \<open>\<^verbatim>\<open>['"]title['"]\s*:\s*(['"])(.*?)\1\<close> and the same for \<open>body\<close>, under
  \<open>re.DOTALL\<close>.\<close>

definition FIELD_RE :: "string \<Rightarrow> re" where
  "FIELD_RE name = seqs
     [Cls is_quote, Lit name, Cls is_quote, spaces, Lit '':'', spaces,
      Grp (Cls is_quote), Grp (Rep False 0 None any_char), Back 1]"

text \<open>\<^verbatim>\<open>(Sala\s+[A-Za-z0-9\-]+|[A-Z]-\d{2,3})\<close>\<close>

definition SALA_RE :: re where
  "SALA_RE = Grp (Alt
     (seqs [Lit ''Sala'', Rep True 1 None is_space, Rep True 1 None is_room_char])
     (seqs [Cls is_upper, Lit ''-'', Rep True 2 (Some 3) is_digit]))"

section \<open>\<open>parser.py\<close>\<close>

subsection \<open>Dates\<close>

text \<open>A naive \<open>datetime\<close> built from year, month, day, hour and minute (seconds and
  microseconds are zero throughout).\<close>

datatype datetime = Datetime (year: nat) (month: nat) (day: nat) (hour: nat) (minute: nat)

text \<open>Python compares naive datetimes field by field, year first.\<close>

definition dt_key :: "datetime \<Rightarrow> nat \<times> nat \<times> nat \<times> nat \<times> nat" where
  "dt_key t = (year t, month t, day t, hour t, minute t)"

definition is_leap :: "nat \<Rightarrow> bool" where
  "is_leap y = (y mod 4 = 0 \<and> (y mod 100 \<noteq> 0 \<or> y mod 400 = 0))"

definition days_in_month :: "nat \<Rightarrow> nat \<Rightarrow> nat" where
  "days_in_month y m =
     (if m = 2 then (if is_leap y then 29 else 28)
      else if m = 4 \<or> m = 6 \<or> m = 9 \<or> m = 11 then 30 else 31)"

text \<open>The constructor \<open>datetime(y, m, d, hh, mm)\<close>: it raises \<open>ValueError\<close> when a field is
  out of range (\<open>MINYEAR = 1\<close>, \<open>MAXYEAR = 9999\<close>).\<close>

definition mk_datetime :: "nat \<Rightarrow> nat \<Rightarrow> nat \<Rightarrow> nat \<Rightarrow> nat \<Rightarrow> error + datetime" where
  "mk_datetime y m d hh mm =
     (if 1 \<le> y \<and> y \<le> 9999 \<and> 1 \<le> m \<and> m \<le> 12 \<and> 1 \<le> d \<and> d \<le> days_in_month y m
         \<and> hh \<le> 23 \<and> mm \<le> 59
      then Inr (Datetime y m d hh mm) else Inl ValueError)"

definition digit_val :: "char \<Rightarrow> nat" where
  "digit_val c = of_char c - 48"

text \<open>\<open>int(g)\<close> for a group of \<open>DATE_RE\<close>, a run of one to four decimal digits.\<close>

definition py_int :: "string \<Rightarrow> nat" where
  "py_int s = foldl (\<lambda>n c. 10 * n + digit_val c) 0 s"

text \<open>\<open>_parse_js_date\<close>, on the groups of a match of \<open>DATE_RE\<close>.  Unpacking anything but
  five values raises \<open>ValueError\<close> too.\<close>

definition parse_js_date :: "string list \<Rightarrow> error + datetime" where
  "parse_js_date groups =
     (case map py_int groups of
        [y, mth, d, hh, mm] \<Rightarrow> mk_datetime y (mth + 1) d hh mm
      | _ \<Rightarrow> Inl ValueError)"

subsection \<open>Text fields\<close>

text \<open>\<open>s.replace(old, new)\<close> for a two-character \<open>old = [a, b]\<close>.\<close>

fun replace2 :: "char \<Rightarrow> char \<Rightarrow> string \<Rightarrow> string \<Rightarrow> string" where
  "replace2 a b new (x # y # s) =
     (if x = a \<and> y = b then new @ replace2 a b new s else x # replace2 a b new (y # s))"
| "replace2 a b new s = s"

definition unescape_js :: "string \<Rightarrow> string" where
  "unescape_js s =
     replace2 (CHR 0x5C) (CHR ''r'') '' ''
       (replace2 (CHR 0x5C) (CHR ''n'') '' ''
         (replace2 (CHR 0x5C) (CHR 0x22) [CHR 0x22]
           (replace2 (CHR 0x5C) (CHR 0x27) [CHR 0x27] s)))"

text \<open>\<open>s.split()\<close>: the maximal runs of non-whitespace characters.\<close>

fun split_acc :: "string \<Rightarrow> string \<Rightarrow> string list" where
  "split_acc cur [] = (if cur = [] then [] else [cur])"
| "split_acc cur (c # cs) =
     (if is_space c then (if cur = [] then split_acc [] cs else cur # split_acc [] cs)
      else split_acc (cur @ [c]) cs)"

definition py_split :: "string \<Rightarrow> string list" where
  "py_split s = split_acc [] s"

fun py_join :: "string \<Rightarrow> string list \<Rightarrow> string" where
  "py_join sep [] = []"
| "py_join sep [w] = w"
| "py_join sep (w # v # rest) = w @ sep @ py_join sep (v # rest)"

text \<open>\<open>_strip_html\<close>.  \<open>get_text\<close> stands for the library call
  \<open>BeautifulSoup(html, "html.parser").get_text(" ")\<close>, which raises on markup the
  parser rejects (\<open>ParserRejectedMarkup\<close>).\<close>

definition strip_html :: "(string \<Rightarrow> error + string) \<Rightarrow> string \<Rightarrow> error + string" where
  "strip_html get_text html =
     (case get_text html of
        Inl e \<Rightarrow> Inl e
      | Inr text \<Rightarrow> Inr (py_join '' '' (py_split text)))"

subsection \<open>\<open>extract_events\<close>\<close>

text \<open>The dict that \<open>extract_events\<close> appends for a block.\<close>

record event =
  ev_start :: datetime
  ev_end :: datetime
  summary :: string
  location :: string
  description :: string

text \<open>The search for \<open>title\<close> or \<open>body\<close> and \<open>unescape_js(match.group(2))\<close>, or \<open>""\<close>
  without a match.\<close>

definition field_html :: "string \<Rightarrow> string \<Rightarrow> string" where
  "field_html name block =
     (case search (FIELD_RE name) block of
        None \<Rightarrow> []
      | Some (mt, gs, rest) \<Rightarrow> (case gs of [q, content] \<Rightarrow> unescape_js content | _ \<Rightarrow> []))"

text \<open>The room heuristic: \<open>sala.group(0)\<close> of the search in the stripped title, or \<open>""\<close>.\<close>

definition find_location :: "string \<Rightarrow> string" where
  "find_location title_txt =
     (case search SALA_RE title_txt of None \<Rightarrow> [] | Some (mt, gs, rest) \<Rightarrow> mt)"

text \<open>The rest of the loop body once both dates are built: the title is stripped before
  the body, and either call may raise.\<close>

definition make_event ::
  "(string \<Rightarrow> error + string) \<Rightarrow> string \<Rightarrow> datetime \<Rightarrow> datetime \<Rightarrow> error + event" where
  "make_event get_text block start stop =
     (case strip_html get_text (field_html ''title'' block) of
        Inl e \<Rightarrow> Inl e
      | Inr title_txt \<Rightarrow>
          (case strip_html get_text (field_html ''body'' block) of
             Inl e \<Rightarrow> Inl e
           | Inr body_txt \<Rightarrow>
               Inr \<lparr> ev_start = start, ev_end = stop,
                     summary = (if title_txt \<noteq> [] then take 200 title_txt else ''Class''),
                     location = find_location title_txt,
                     description = (if body_txt \<noteq> [] then take 2000 body_txt else []) \<rparr>))"

text \<open>
  One turn of the loop over the blocks: \<open>Inr None\<close> is \<open>continue\<close>, \<open>Inr (Some ev)\<close> the
  record appended, \<open>Inl e\<close> an exception leaving the loop.  The start date is built before
  the end date is searched for.
\<close>

definition parse_block :: "(string \<Rightarrow> error + string) \<Rightarrow> string \<Rightarrow> error + event option" where
  "parse_block get_text block =
     (case search DATE_RE block of
        None \<Rightarrow> Inr None
      | Some (mt1, gs1, rest1) \<Rightarrow>
          (case parse_js_date gs1 of
             Inl e \<Rightarrow> Inl e
           | Inr start \<Rightarrow>
               (case search DATE_RE rest1 of
                  None \<Rightarrow> Inr None
                | Some (mt2, gs2, rest2) \<Rightarrow>
                    (case parse_js_date gs2 of
                       Inl e \<Rightarrow> Inl e
                     | Inr stop \<Rightarrow>
                         (case make_event get_text block start stop of
                            Inl e \<Rightarrow> Inl e
                          | Inr ev \<Rightarrow> Inr (Some ev))))))"

fun events_loop ::
  "(string \<Rightarrow> error + string) \<Rightarrow> string list \<Rightarrow> event list \<Rightarrow> error + event list" where
  "events_loop get_text [] events = Inr events"
| "events_loop get_text (block # blocks) events =
     (case parse_block get_text block of
        Inl e \<Rightarrow> Inl e
      | Inr None \<Rightarrow> events_loop get_text blocks events
      | Inr (Some ev) \<Rightarrow> events_loop get_text blocks (events @ [ev]))"

text \<open>\<open>extract_events(js_blob)\<close>.  The argument is whatever the caller read from the JSON
  body; \<open>findall\<close> on anything but a \<open>str\<close> raises \<open>TypeError\<close>.\<close>

definition extract_events :: "(string \<Rightarrow> error + string) \<Rightarrow> pyval \<Rightarrow> error + event list" where
  "extract_events get_text js_blob =
     (if \<not> truthy js_blob then Inr []
      else case js_blob of
             PStr s \<Rightarrow> events_loop get_text (findall EVENT_BLOCK_RE s) []
           | _ \<Rightarrow> Inl TypeError)"

section \<open>\<open>main.py\<close>\<close>

subsection \<open>Configuration, the outside world and the cache\<close>

text \<open>The integers read from the environment at start-up.\<close>

record config =
  WEEKS_BEFORE :: int
  WEEKS_AFTER :: int
  REFRESH_MIN :: int

text \<open>
  A timezone-aware datetime is an instant on one time line, in microseconds counted from
  0001-01-01T00:00 UTC, and the UTC offset its zone had when the value was made.  Aware
  values are compared by their instants.  pytz keeps the offset of an aware value under
  \<open>+ timedelta\<close> and \<open>+ relativedelta\<close>, so the sum is the instant that much later;
  the sum raises \<open>OverflowError\<close> when its wall-clock value, instant plus offset, leaves
  the range of \<open>datetime\<close>, 0001-01-01T00:00 to 9999-12-31T23:59:59.999999.  (A
  \<open>timedelta\<close> too large to build raises the same error, and only for sums that leave
  the range anyway.)
\<close>

type_synonym instant = int

definition datetime_max :: int where
  "datetime_max = 315537897599999999"

definition add_timedelta :: "instant \<Rightarrow> int \<Rightarrow> int \<Rightarrow> error + instant" where
  "add_timedelta t utc_off delta =
     (if 0 \<le> t + utc_off + delta \<and> t + utc_off + delta \<le> datetime_max
      then Inr (t + delta) else Inl OverflowError)"

definition minutes :: "int \<Rightarrow> int" where
  "minutes m = m * 60000000"

definition weeks_delta :: "int \<Rightarrow> int" where
  "weeks_delta w = w * 7 * 24 * 60 * 60000000"

text \<open>What \<open>APP_TZ.localize\<close> returns: the wall-clock fields and the offset chosen.\<close>

record aware =
  wall :: datetime
  utcoffset :: int

type_synonym bytes = string

text \<open>An icalendar component: its name, the properties in the order they were added and
  the components added to it.\<close>

datatype prop_value = VText string | VDate aware

datatype component = Component string "(string \<times> prop_value) list" "component list"

text \<open>
  Everything one call of the handler takes from outside the two source files: the clock
  at the three calls of \<open>datetime.now\<close> (with the UTC offset of \<open>APP_TZ\<close> at the two
  readings that are added to), the upstream answers, and the libraries.
  \<^item> \<open>resolve_post i dt\<close> is the outcome of \<open>session.post\<close>, \<open>raise_for_status\<close> and
    \<open>r.json()\<close> in \<open>get_code_week_for_date\<close> for the \<open>i\<close>-th probe instant \<open>dt\<close>;
  \<^item> \<open>fetch_post i code_week\<close> is the same in \<open>get_week_events\<close>;
  \<^item> \<open>get_text\<close> is BeautifulSoup (it may reject the markup), \<open>localize\<close> is pytz,
    \<open>timestamp\<close> is
    \<open>int(dt.timestamp())\<close>, \<open>str_hash\<close> is the built-in \<open>hash\<close> of a \<open>str\<close>, and
    \<open>to_ical\<close> is icalendar's serialiser.
\<close>

record env =
  now_calendar :: instant
  now_today :: instant
  offset_today :: int
  now_publish :: instant
  offset_publish :: int
  resolve_post :: "nat \<Rightarrow> instant \<Rightarrow> error + pyval"
  fetch_post :: "nat \<Rightarrow> pyval \<Rightarrow> error + pyval"
  get_text :: "string \<Rightarrow> error + string"
  localize :: "datetime \<Rightarrow> error + aware"
  timestamp :: "aware \<Rightarrow> int"
  str_hash :: "string \<Rightarrow> int"
  to_ical :: "component \<Rightarrow> error + bytes"

text \<open>\<open>_cache_expires\<close> starts as the naive \<open>datetime.min\<close> and is aware once assigned by
  \<open>refresh_cache\<close>.\<close>

datatype expiry = DatetimeMin | Aware instant

record cache =
  cache_ics :: "bytes option"
  cache_expires :: expiry

definition initial_cache :: cache where
  "initial_cache = \<lparr> cache_ics = None, cache_expires = DatetimeMin \<rparr>"

subsection \<open>The two upstream calls\<close>

text \<open>\<open>j.get(key, default)\<close>: only a dict has the method.\<close>

fun py_get :: "pyval \<Rightarrow> string \<Rightarrow> pyval \<Rightarrow> error + pyval" where
  "py_get (PDict kvs) key dflt =
     Inr (case map_of kvs key of None \<Rightarrow> dflt | Some v \<Rightarrow> v)"
| "py_get j key dflt = Inl AttributeError"

definition get_code_week_for_date :: "env \<Rightarrow> nat \<Rightarrow> instant \<Rightarrow> error + pyval" where
  "get_code_week_for_date w i dt =
     (case resolve_post w i dt of
        Inl e \<Rightarrow> Inl e
      | Inr j \<Rightarrow> py_get j ''d'' PNone)"

definition get_week_events :: "env \<Rightarrow> nat \<Rightarrow> pyval \<Rightarrow> error + event list" where
  "get_week_events w i code_week =
     (case fetch_post w i code_week of
        Inl e \<Rightarrow> Inl e
      | Inr j \<Rightarrow>
          (case py_get j ''d'' (PStr []) of
             Inl e \<Rightarrow> Inl e
           | Inr js_blob \<Rightarrow> extract_events (get_text w) js_blob))"

subsection \<open>\<open>build_ics\<close>\<close>

definition digit_char :: "nat \<Rightarrow> char" where
  "digit_char n = char_of (48 + n)"

function digits_of :: "nat \<Rightarrow> string" where
  "digits_of n = (if n < 10 then [digit_char n] else digits_of (n div 10) @ [digit_char (n mod 10)])"
  by pat_completeness auto
termination
  by (relation "measure id") auto

text \<open>\<open>str(i)\<close> of an \<open>int\<close>, as the f-string formats it.\<close>

definition py_str :: "int \<Rightarrow> string" where
  "py_str i = (if i < 0 then ''-'' @ digits_of (nat (- i)) else digits_of (nat i))"

text \<open>The body of the loop of \<open>build_ics\<close>: the \<open>VEVENT\<close> of one record.\<close>

definition build_event :: "env \<Rightarrow> event \<Rightarrow> error + component" where
  "build_event w ev =
     (case localize w (ev_start ev) of
        Inl e \<Rightarrow> Inl e
      | Inr dtstart \<Rightarrow>
          (case localize w (ev_end ev) of
             Inl e \<Rightarrow> Inl e
           | Inr dtend \<Rightarrow>
               (let uid = py_str (timestamp w dtstart) @ ''-''
                          @ py_str (abs (str_hash w (summary ev))) @ ''@isep-ics''
                in Inr (Component ''VEVENT''
                     ([(''dtstart'', VDate dtstart), (''dtend'', VDate dtend),
                       (''summary'', VText (if summary ev \<noteq> [] then summary ev else ''Class''))]
                      @ (if location ev \<noteq> [] then [(''location'', VText (location ev))] else [])
                      @ (if description ev \<noteq> [] then [(''description'', VText (description ev))] else [])
                      @ [(''uid'', VText uid)])
                     []))))"

fun build_events :: "env \<Rightarrow> event list \<Rightarrow> error + component list" where
  "build_events w [] = Inr []"
| "build_events w (ev # evs) =
     (case build_event w ev of
        Inl e \<Rightarrow> Inl e
      | Inr ve \<Rightarrow> (case build_events w evs of Inl e \<Rightarrow> Inl e | Inr ves \<Rightarrow> Inr (ve # ves)))"

definition build_ics :: "env \<Rightarrow> event list \<Rightarrow> error + bytes" where
  "build_ics w all_events =
     (case build_events w all_events of
        Inl e \<Rightarrow> Inl e
      | Inr ves \<Rightarrow>
          to_ical w (Component ''VCALENDAR''
            [(''prodid'', VText ''-//ISEP ICS Bridge//local//''),
             (''version'', VText ''2.0''),
             (''method'', VText ''PUBLISH'')]
            ves))"

subsection \<open>\<open>refresh_cache\<close>\<close>

type_synonym key = "datetime \<times> datetime \<times> string"

definition event_key :: "event \<Rightarrow> key" where
  "event_key ev = (ev_start ev, ev_end ev, summary ev)"

text \<open>The inner loop: the records of one window against \<open>events\<close> and \<open>seen\<close>.\<close>

fun merge_week :: "event list \<Rightarrow> event list \<times> key set \<Rightarrow> event list \<times> key set" where
  "merge_week [] (events, seen) = (events, seen)"
| "merge_week (ev # evs) (events, seen) =
     (if event_key ev \<in> seen then merge_week evs (events, seen)
      else merge_week evs (events @ [ev], insert (event_key ev) seen))"

text \<open>The loop over the probe instants, each with its position.  Both \<open>except Exception\<close>
  clauses and the test \<open>not code_week\<close> go on with the next instant.\<close>

fun windows_loop :: "env \<Rightarrow> (nat \<times> instant) list \<Rightarrow> event list \<times> key set \<Rightarrow> event list \<times> key set" where
  "windows_loop w [] acc = acc"
| "windows_loop w ((i, dt) # rest) acc =
     (case get_code_week_for_date w i dt of
        Inl e \<Rightarrow> windows_loop w rest acc
      | Inr code_week \<Rightarrow>
          if \<not> truthy code_week then windows_loop w rest acc
          else (case get_week_events w i code_week of
                  Inl e \<Rightarrow> windows_loop w rest acc
                | Inr week_events \<Rightarrow> windows_loop w rest (merge_week week_events acc)))"

text \<open>\<open>[today + relativedelta(weeks=+w) for w in range(-WEEKS_BEFORE, WEEKS_AFTER + 1)]\<close>:
  the sums are built from left to right before the loop starts, and the first one out of
  range raises.\<close>

fun add_weeks :: "instant \<Rightarrow> int \<Rightarrow> int list \<Rightarrow> error + instant list" where
  "add_weeks today utc_off [] = Inr []"
| "add_weeks today utc_off (k # ks) =
     (case add_timedelta today utc_off (weeks_delta k) of
        Inl e \<Rightarrow> Inl e
      | Inr dt \<Rightarrow>
          (case add_weeks today utc_off ks of Inl e \<Rightarrow> Inl e | Inr dts \<Rightarrow> Inr (dt # dts)))"

definition probe_instants :: "config \<Rightarrow> env \<Rightarrow> error + instant list" where
  "probe_instants cfg w =
     add_weeks (now_today w) (offset_today w) [- WEEKS_BEFORE cfg .. WEEKS_AFTER cfg]"

text \<open>The loop of lines 160 to 180 over the probe instants \<open>weeks\<close>: the merged records.\<close>

definition gather :: "env \<Rightarrow> instant list \<Rightarrow> event list" where
  "gather w weeks = fst (windows_loop w (enumerate 0 weeks) ([], {}))"

text \<open>\<open>events.sort(key=lambda e: (e["start"], e["summary"]))\<close>; Python's sort is stable.\<close>

definition sort_by :: "event \<Rightarrow> (nat \<times> nat \<times> nat \<times> nat \<times> nat) \<times> string" where
  "sort_by e = (dt_key (ev_start e), summary e)"

definition sort_events :: "event list \<Rightarrow> event list" where
  "sort_events events = sort_key sort_by events"

text \<open>
  \<open>refresh_cache\<close> returns the globals with its outcome.  An exception of line 158 or of
  \<open>build_ics\<close> leaves the function before either global is assigned.  Line 184 assigns
  \<open>_cache_ics\<close>; line 185 then builds the expiry, and when that sum raises, the new bytes
  stand with the old expiry.  (\<open>_setup_session_cookies\<close> catches its own exceptions and
  only logs.)
\<close>

definition refresh_cache :: "config \<Rightarrow> env \<Rightarrow> cache \<Rightarrow> (error + unit) \<times> cache" where
  "refresh_cache cfg w st =
     (case probe_instants cfg w of
        Inl e \<Rightarrow> (Inl e, st)
      | Inr weeks \<Rightarrow>
          (case build_ics w (sort_events (gather w weeks)) of
             Inl e \<Rightarrow> (Inl e, st)
           | Inr b \<Rightarrow>
               (case add_timedelta (now_publish w) (offset_publish w) (minutes (REFRESH_MIN cfg)) of
                  Inl e \<Rightarrow> (Inl e, st\<lparr>cache_ics := Some b\<rparr>)
                | Inr t \<Rightarrow> (Inr (), \<lparr> cache_ics = Some b, cache_expires = Aware t \<rparr>))))"

subsection \<open>The handler \<open>calendar\<close>\<close>

text \<open>Truth value of \<open>_cache_ics\<close>: \<open>None\<close> and \<open>b""\<close> are false.\<close>

definition bytes_truthy :: "bytes option \<Rightarrow> bool" where
  "bytes_truthy c = (case c of None \<Rightarrow> False | Some b \<Rightarrow> b \<noteq> [])"

text \<open>\<open>now >= _cache_expires\<close>: comparing an aware with a naive datetime raises.\<close>

fun ge_expiry :: "instant \<Rightarrow> expiry \<Rightarrow> error + bool" where
  "ge_expiry now DatetimeMin = Inl TypeError"
| "ge_expiry now (Aware t) = Inr (t \<le> now)"

text \<open>\<open>not _cache_ics or now >= _cache_expires\<close>, with the short circuit of \<open>or\<close>.\<close>

definition needs_refresh :: "instant \<Rightarrow> cache \<Rightarrow> error + bool" where
  "needs_refresh now st =
     (if \<not> bytes_truthy (cache_ics st) then Inr True else ge_expiry now (cache_expires st))"

text \<open>\<open>_cache_ics or b""\<close>\<close>

definition response_content :: "cache \<Rightarrow> bytes" where
  "response_content st = (case cache_ics st of None \<Rightarrow> [] | Some b \<Rightarrow> b)"

definition calendar :: "config \<Rightarrow> env \<Rightarrow> cache \<Rightarrow> (error + bytes) \<times> cache" where
  "calendar cfg w st =
     (case needs_refresh (now_calendar w) st of
        Inl e \<Rightarrow> (Inl e, st)
      | Inr True \<Rightarrow>
          (case refresh_cache cfg w st of
             (Inl e, st') \<Rightarrow> (Inl e, st')
           | (Inr u, st') \<Rightarrow> (Inr (response_content st'), st'))
      | Inr False \<Rightarrow> (Inr (response_content st), st))"

subsection \<open>Handlers running in threads\<close>

text \<open>
  The web framework runs a plain \<open>def\<close> handler in a pool of threads, and the handler
  takes no lock.  A thread is at one of these points of \<open>calendar\<close>: before the test of
  line 192, inside \<open>refresh_cache\<close> (the test was true; the upstream calls are under way
  and nothing is assigned yet), before the \<open>return\<close>, or finished.  A schedule names the
  thread that takes the next step, and \<open>cycles\<close> counts the runs of \<open>refresh_cache\<close>
  that have taken place.
\<close>

datatype pc = AtCheck | InRefresh | AtReturn | Finished "error + bytes"

record handler =
  at :: pc
  world :: env

record system =
  shared :: cache
  handlers :: "handler list"
  cycles :: nat

definition step_handler :: "config \<Rightarrow> handler \<Rightarrow> cache \<Rightarrow> handler \<times> cache \<times> nat" where
  "step_handler cfg h st =
     (case at h of
        AtCheck \<Rightarrow>
          (case needs_refresh (now_calendar (world h)) st of
             Inl e \<Rightarrow> (h\<lparr>at := Finished (Inl e)\<rparr>, st, 0)
           | Inr True \<Rightarrow> (h\<lparr>at := InRefresh\<rparr>, st, 0)
           | Inr False \<Rightarrow> (h\<lparr>at := AtReturn\<rparr>, st, 0))
      | InRefresh \<Rightarrow>
          (case refresh_cache cfg (world h) st of
             (Inl e, st') \<Rightarrow> (h\<lparr>at := Finished (Inl e)\<rparr>, st', 1)
           | (Inr u, st') \<Rightarrow> (h\<lparr>at := AtReturn\<rparr>, st', 1))
      | AtReturn \<Rightarrow> (h\<lparr>at := Finished (Inr (response_content st))\<rparr>, st, 0)
      | Finished r \<Rightarrow> (h, st, 0))"

definition step :: "config \<Rightarrow> system \<Rightarrow> nat \<Rightarrow> system" where
  "step cfg sys i =
     (if i < length (handlers sys)
      then (case step_handler cfg (handlers sys ! i) (shared sys) of
              (h', st', n) \<Rightarrow>
                \<lparr> shared = st', handlers = (handlers sys)[i := h'], cycles = cycles sys + n \<rparr>)
      else sys)"

definition run :: "config \<Rightarrow> nat list \<Rightarrow> system \<Rightarrow> system" where
  "run cfg schedule sys = foldl (step cfg) sys schedule"

definition start_system :: "cache \<Rightarrow> env list \<Rightarrow> system" where
  "start_system st ws =
     \<lparr> shared = st, handlers = map (\<lambda>w. \<lparr> at = AtCheck, world = w \<rparr>) ws, cycles = 0 \<rparr>"

text \<open>The number of threads inside \<open>refresh_cache\<close>.\<close>

definition in_flight :: "system \<Rightarrow> nat" where
  "in_flight sys = length (filter (\<lambda>h. at h = InRefresh) (handlers sys))"

section \<open>Notions used in the statements\<close>

text \<open>A probe instant contributes no records: the week-resolution call raises or gives
  no token, or the week-fetch call raises.\<close>

definition window_fails :: "env \<Rightarrow> nat \<Rightarrow> instant \<Rightarrow> bool" where
  "window_fails w i dt =
     (case get_code_week_for_date w i dt of
        Inl e \<Rightarrow> True
      | Inr code_week \<Rightarrow>
          (if truthy code_week
           then (case get_week_events w i code_week of Inl e \<Rightarrow> True | Inr evs \<Rightarrow> False)
           else True))"

text \<open>The calendar \<open>build_ics\<close> hands to the serialiser when there are no records.\<close>

definition empty_calendar :: component where
  "empty_calendar = Component ''VCALENDAR''
     [(''prodid'', VText ''-//ISEP ICS Bridge//local//''),
      (''version'', VText ''2.0''),
      (''method'', VText ''PUBLISH'')]
     []"

text \<open>The records one probe instant hands to the inner loop: none when a call fails or
  no token comes back.\<close>

definition window_events :: "env \<Rightarrow> nat \<times> instant \<Rightarrow> event list" where
  "window_events w p =
     (case p of (i, dt) \<Rightarrow>
        (case get_code_week_for_date w i dt of
           Inl e \<Rightarrow> []
         | Inr code_week \<Rightarrow>
             if truthy code_week
             then (case get_week_events w i code_week of Inl e \<Rightarrow> [] | Inr evs \<Rightarrow> evs)
             else []))"

text \<open>All records of a cycle over the probe instants \<open>weeks\<close>, in window-processing order,
  earliest probe instant first.\<close>

definition fetched :: "env \<Rightarrow> instant list \<Rightarrow> event list" where
  "fetched w weeks = concat (map (window_events w) (enumerate 0 weeks))"

text \<open>The merge in the words of the specification: of the records that share a key
  \<open>(start, end, summary)\<close>, the first one met stays.\<close>

function dedup_first :: "event list \<Rightarrow> event list" where
  "dedup_first [] = []"
| "dedup_first (x # xs) = x # dedup_first (filter (\<lambda>e. event_key e \<noteq> event_key x) xs)"
  by pat_completeness auto
termination
  by (relation "measure length") (auto simp: less_Suc_eq_le)


text \<open>Bytes that count as present come with an aware expiry.  \<open>refresh_cache\<close> assigns
  both unless the sum of line 185 raises; only then do present bytes stand with
  \<open>datetime.min\<close>, and the comparison of line 192 raises \<open>TypeError\<close>.\<close>

definition cache_wf :: "cache \<Rightarrow> bool" where
  "cache_wf st = (if bytes_truthy (cache_ics st) then cache_expires st \<noteq> DatetimeMin else True)"

text \<open>The numbers of a date token that \<open>datetime\<close> accepts, the month still zero-based.\<close>

definition valid_js_date :: "string list \<Rightarrow> bool" where
  "valid_js_date groups =
     (case map py_int groups of
        [y, mth, d, hh, mm] \<Rightarrow>
          1 \<le> y \<and> y \<le> 9999 \<and> mth \<le> 11 \<and> 1 \<le> d \<and> d \<le> days_in_month y (mth + 1)
          \<and> hh \<le> 23 \<and> mm \<le> 59
      | _ \<Rightarrow> False)"




section \<open>Sample inputs\<close>

text \<open>The defaults of the three settings.\<close>

definition default_config :: config where
  "default_config = \<lparr> WEEKS_BEFORE = 0, WEEKS_AFTER = 6, REFRESH_MIN = 15 \<rparr>"

text \<open>A markup parser that takes every markup as text.\<close>

definition plain_text :: "string \<Rightarrow> error + string" where
  "plain_text html = Inr html"

text \<open>An upstream that answers nothing, with libraries that do the least: the markup is
  taken as text, every datetime localises at offset zero, and the serialiser writes the
  name of the component.\<close>

definition offline :: env where
  "offline =
     \<lparr> now_calendar = 1000, now_today = 1000, offset_today = 0,
       now_publish = 2000, offset_publish = 0,
       resolve_post = (\<lambda>i dt. Inl RequestException),
       fetch_post = (\<lambda>i code_week. Inl RequestException),
       get_text = plain_text,
       localize = (\<lambda>d. Inr \<lparr> wall = d, utcoffset = 0 \<rparr>),
       timestamp = (\<lambda>a. 0),
       str_hash = (\<lambda>s. 0),
       to_ical = (\<lambda>c. case c of Component name props subs \<Rightarrow> Inr name) \<rparr>"

text \<open>The text of one block as the portal writes it:
  \<^verbatim>\<open>{'start': new Date(S), 'end': new Date(E), 'title': 'T'}\<close>.\<close>

definition js_block :: "string \<Rightarrow> string \<Rightarrow> string \<Rightarrow> string" where
  "js_block start_args end_args title =
     ''{'' @ [CHR 0x27] @ ''start'' @ [CHR 0x27] @ '': new Date('' @ start_args @ ''), ''
     @ [CHR 0x27] @ ''end'' @ [CHR 0x27] @ '': new Date('' @ end_args @ ''), ''
     @ [CHR 0x27] @ ''title'' @ [CHR 0x27] @ '': '' @ [CHR 0x27] @ title @ [CHR 0x27] @ ''}''"

text \<open>Sample records: a class from \<open>hh:00\<close> to \<open>hh2:00\<close> on one day.\<close>

definition class_at :: "nat \<Rightarrow> nat \<Rightarrow> string \<Rightarrow> event" where
  "class_at hh hh2 title =
     \<lparr> ev_start = Datetime 2025 9 18 hh 0, ev_end = Datetime 2025 9 18 hh2 0,
       summary = title, location = [], description = [] \<rparr>"

text \<open>An upstream that answers every week with the same single class.\<close>

definition same_class_every_week :: env where
  "same_class_every_week =
     offline\<lparr> resolve_post := (\<lambda>i dt. Inr (PDict [(''d'', PStr ''week'')])),
              fetch_post := (\<lambda>i code_week.
                Inr (PDict [(''d'', PStr (js_block ''2025, 8, 18, 9, 0'' ''2025, 8, 18, 10, 0'' ''Math''))])) \<rparr>"

section \<open>Empty and missing blobs\<close>

lemma extract_events_falsy:
  "\<not> truthy v \<Longrightarrow> extract_events gt v = Inr []"
  by (simp add: extract_events_def)

text \<open>
  C10.  When the week-fetch call succeeds with a JSON object that has no \<open>"d"\<close> item, or
  whose \<open>"d"\<close> is \<open>null\<close>, \<open>""\<close> or another empty value, \<open>get_week_events\<close> returns the
  empty list without raising; \<open>extract_events\<close> returns the empty list on every such blob.
\<close>

theorem get_week_events_without_d:
  assumes "fetch_post w i code_week = Inr (PDict kvs)"
      and "map_of kvs ''d'' = None \<or> (\<exists>v. map_of kvs ''d'' = Some v \<and> \<not> truthy v)"
  shows "get_week_events w i code_week = Inr []
         \<and> extract_events (get_text w) PNone = Inr []
         \<and> extract_events (get_text w) (PStr []) = Inr []"
proof -
  from assms(2) obtain v where v: "py_get (PDict kvs) ''d'' (PStr []) = Inr v" "\<not> truthy v"
    by auto
  then have "get_week_events w i code_week = Inr []"
    using assms(1) by (simp add: get_week_events_def extract_events_falsy del: py_get.simps)
  then show ?thesis by (simp add: extract_events_falsy)
qed

theorem get_week_events_without_d_witness:
  "get_week_events (offline\<lparr>fetch_post := (\<lambda>i c. Inr (PDict [(''x'', PInt 1)]))\<rparr>) 0 (PStr ''w1'') = Inr []
   \<and> get_week_events (offline\<lparr>fetch_post := (\<lambda>i c. Inr (PDict [(''d'', PNone)]))\<rparr>) 0 (PStr ''w1'') = Inr []"
proof -
  have a: "fetch_post (offline\<lparr>fetch_post := (\<lambda>i c. Inr (PDict [(''x'', PInt 1)]))\<rparr>) 0 (PStr ''w1'')
           = Inr (PDict [(''x'', PInt 1)])"
    by simp
  have b: "fetch_post (offline\<lparr>fetch_post := (\<lambda>i c. Inr (PDict [(''d'', PNone)]))\<rparr>) 0 (PStr ''w1'')
           = Inr (PDict [(''d'', PNone)])"
    by simp
  show ?thesis
    using get_week_events_without_d[OF a] get_week_events_without_d[OF b]
    by simp
qed

section \<open>Refresh cycles that gather nothing, and cycles that cannot build\<close>

lemma windows_loop_all_fail:
  "\<forall>(i, dt) \<in> set wins. window_fails w i dt \<Longrightarrow> windows_loop w wins acc = acc"
proof (induction wins)
  case Nil
  then show ?case by simp
next
  case (Cons p wins)
  obtain i dt where p: "p = (i, dt)" by (cases p)
  from Cons.prems p have f: "window_fails w i dt" by simp
  from Cons have rest: "windows_loop w wins acc = acc" by simp
  from f rest show ?case
    unfolding p by (auto simp: window_fails_def split: sum.splits if_splits)
qed

lemma gather_all_fail:
  "\<forall>(i, dt) \<in> set (enumerate 0 weeks). window_fails w i dt \<Longrightarrow> gather w weeks = []"
  using windows_loop_all_fail[of "enumerate 0 weeks" w "([], {})"] by (simp add: gather_def)

lemma sort_events_Nil: "sort_events [] = []"
  by (simp add: sort_events_def)

lemma build_ics_Nil: "build_ics w [] = to_ical w empty_calendar"
  by (simp add: build_ics_def empty_calendar_def)

lemma add_weeks_in_range:
  "\<forall>k \<in> set ks. 0 \<le> today + utc_off + weeks_delta k \<and> today + utc_off + weeks_delta k \<le> datetime_max
   \<Longrightarrow> add_weeks today utc_off ks = Inr (map (\<lambda>k. today + weeks_delta k) ks)"
  by (induction ks) (simp_all add: add_timedelta_def)

lemma probe_instants_offline:
  "probe_instants default_config (offline\<lparr>now_calendar := n, to_ical := f\<rparr>)
     = Inr (map (\<lambda>k. 1000 + weeks_delta k) [0..6])"
proof -
  have "\<forall>k \<in> set [0..6]. 0 \<le> (1000::int) + 0 + weeks_delta k \<and> 1000 + 0 + weeks_delta k \<le> datetime_max"
    by (auto simp: weeks_delta_def datetime_max_def)
  from add_weeks_in_range[OF this] show ?thesis
    by (simp add: probe_instants_def offline_def default_config_def)
qed

lemma offline_window_fails:
  "window_fails (offline\<lparr>now_calendar := n, to_ical := f\<rparr>) i dt"
  by (simp add: window_fails_def get_code_week_for_date_def offline_def)

lemma gather_offline:
  "gather (offline\<lparr>now_calendar := n, to_ical := f\<rparr>) weeks = []"
  by (rule gather_all_fail) (simp add: offline_window_fails split: prod.splits)

text \<open>Every probe instant fails and the serialiser does its work, but the configured
  numbers take the date arithmetic out of the range of \<open>datetime\<close>.  With a refresh
  interval of \<open>10^13\<close> minutes line 184 stores the bytes and line 185 raises: the cycle ends
  in \<open>OverflowError\<close> with the expiry still \<open>datetime.min\<close>.  With the one probe instant
  416100 weeks ahead line 158 raises before anything is fetched, and the cache stays
  absent.  The clock stands at noon of 18 September 2025.\<close>

theorem refresh_cache_overflow:
  "refresh_cache (default_config\<lparr>REFRESH_MIN := 10000000000000\<rparr>)
       (offline\<lparr>now_today := 63893793600000000, now_publish := 63893793600000000\<rparr>) initial_cache
     = (Inl OverflowError, \<lparr> cache_ics = Some ''VCALENDAR'', cache_expires = DatetimeMin \<rparr>)
   \<and> refresh_cache (default_config\<lparr>WEEKS_BEFORE := - 416100, WEEKS_AFTER := 416100\<rparr>)
       (offline\<lparr>now_today := 63893793600000000, now_publish := 63893793600000000\<rparr>) initial_cache
     = (Inl OverflowError, \<lparr> cache_ics = None, cache_expires = DatetimeMin \<rparr>)"
  by code_simp

text \<open>
  C3, as the code has it.  When every probe instant of a cycle fails (the week-resolution
  call raises or gives no token, or the week-fetch call raises) and the date arithmetic
  of lines 158 and 185 stays in the range of \<open>datetime\<close>, \<open>refresh_cache\<close> returns
  normally: it serialises the calendar that has no events, stores those bytes, which count
  as present when the serialiser wrote any, and sets the expiry to the publication
  instant plus \<open>REFRESH_MIN\<close> minutes, whatever the cache held before.
\<close>

theorem refresh_cache_all_windows_fail:
  assumes "probe_instants cfg w = Inr weeks"
      and "\<forall>(i, dt) \<in> set (enumerate 0 weeks). window_fails w i dt"
      and "to_ical w empty_calendar = Inr b" and "b \<noteq> []"
      and "add_timedelta (now_publish w) (offset_publish w) (minutes (REFRESH_MIN cfg)) = Inr t"
  shows "gather w weeks = []
         \<and> refresh_cache cfg w st = (Inr (), \<lparr> cache_ics = Some b, cache_expires = Aware t \<rparr>)
         \<and> t = now_publish w + minutes (REFRESH_MIN cfg)
         \<and> bytes_truthy (cache_ics (snd (refresh_cache cfg w st)))"
proof -
  have g: "gather w weeks = []"
    using assms(2) by (rule gather_all_fail)
  have r: "refresh_cache cfg w st = (Inr (), \<lparr> cache_ics = Some b, cache_expires = Aware t \<rparr>)"
    using assms(1,3,5) g by (simp add: refresh_cache_def sort_events_Nil build_ics_Nil)
  have t: "t = now_publish w + minutes (REFRESH_MIN cfg)"
    using assms(5) by (auto simp: add_timedelta_def split: if_splits)
  from g r t assms(4) show ?thesis by (simp add: bytes_truthy_def)
qed

theorem refresh_cache_all_windows_fail_witness:
  "refresh_cache default_config offline initial_cache =
     (Inr (), \<lparr> cache_ics = Some ''VCALENDAR'', cache_expires = Aware 900002000 \<rparr>)"
proof -
  have p: "probe_instants default_config offline = Inr (map (\<lambda>k. 1000 + weeks_delta k) [0..6])"
    using probe_instants_offline[where n = "now_calendar offline" and f = "to_ical offline"] by simp
  have a: "\<forall>(i, dt) \<in> set (enumerate 0 (map (\<lambda>k. 1000 + weeks_delta k) [0..6])).
             window_fails offline i dt"
    using offline_window_fails[where n = "now_calendar offline" and f = "to_ical offline"]
    by (simp split: prod.splits)
  have b: "to_ical offline empty_calendar = Inr ''VCALENDAR''"
    by (simp add: offline_def empty_calendar_def)
  have c: "add_timedelta (now_publish offline) (offset_publish offline)
             (minutes (REFRESH_MIN default_config)) = Inr 900002000"
    by (simp add: offline_def default_config_def minutes_def add_timedelta_def datetime_max_def)
  show ?thesis
    using refresh_cache_all_windows_fail[OF p a b _ c, of initial_cache] by simp
qed

text \<open>
  C4.  When \<open>build_ics\<close> raises on the records of a cycle, \<open>refresh_cache\<close> raises the
  same exception and assigns neither global: the cached bytes and the expiry are what
  they were before the cycle, also after the call of \<open>calendar\<close> that ran it.
\<close>

theorem refresh_cache_build_failure:
  assumes "probe_instants cfg w = Inr weeks"
      and "build_ics w (sort_events (gather w weeks)) = Inl e"
  shows "refresh_cache cfg w st = (Inl e, st)
         \<and> cache_ics (snd (refresh_cache cfg w st)) = cache_ics st
         \<and> cache_expires (snd (refresh_cache cfg w st)) = cache_expires st
         \<and> snd (calendar cfg w st) = st"
  using assms by (simp add: refresh_cache_def calendar_def split: sum.splits bool.splits)

theorem refresh_cache_build_failure_witness:
  "refresh_cache default_config (offline\<lparr>to_ical := (\<lambda>c. Inl EncodingError)\<rparr>)
       \<lparr> cache_ics = Some ''old'', cache_expires = Aware 5 \<rparr>
     = (Inl EncodingError, \<lparr> cache_ics = Some ''old'', cache_expires = Aware 5 \<rparr>)"
proof -
  let ?w = "offline\<lparr>to_ical := (\<lambda>c. Inl EncodingError)\<rparr>"
  have p: "probe_instants default_config ?w = Inr (map (\<lambda>k. 1000 + weeks_delta k) [0..6])"
    using probe_instants_offline[where n = "now_calendar offline" and f = "\<lambda>c. Inl EncodingError"] by simp
  have "gather ?w (map (\<lambda>k. 1000 + weeks_delta k) [0..6]) = []"
    using gather_offline[where n = "now_calendar offline" and f = "\<lambda>c. Inl EncodingError"] by simp
  then have a: "build_ics ?w (sort_events (gather ?w (map (\<lambda>k. 1000 + weeks_delta k) [0..6])))
                = Inl EncodingError"
    by (simp add: sort_events_Nil build_ics_Nil)
  show ?thesis
    using refresh_cache_build_failure[OF p a] by simp
qed

section \<open>When the handler refreshes\<close>


lemma cache_wf_refresh:
  assumes "cache_wf st"
      and "add_timedelta (now_publish w) (offset_publish w) (minutes (REFRESH_MIN cfg)) = Inr t"
  shows "cache_wf (snd (refresh_cache cfg w st))"
  using assms by (simp add: refresh_cache_def cache_wf_def split: sum.splits)

lemma cache_wf_calendar:
  assumes "cache_wf st"
      and "add_timedelta (now_publish w) (offset_publish w) (minutes (REFRESH_MIN cfg)) = Inr t"
  shows "cache_wf (snd (calendar cfg w st))"
  using cache_wf_refresh[OF assms] assms(1)
  by (auto simp: calendar_def split: sum.splits bool.splits prod.splits)

lemma calendar_bytes_without_expiry:
  "bytes_truthy (cache_ics st) \<Longrightarrow> cache_expires st = DatetimeMin \<Longrightarrow>
   calendar cfg w st = (Inl TypeError, st)"
  by (simp add: calendar_def needs_refresh_def)





section \<open>Blocks that \<open>extract_events\<close> skips, and blocks on which it raises\<close>

lemma parse_js_date_Inl_iff:
  "parse_js_date groups = Inl e \<longleftrightarrow> e = ValueError \<and> \<not> valid_js_date groups"
  by (auto simp: parse_js_date_def valid_js_date_def mk_datetime_def split: list.splits)

text \<open>The two \<open>continue\<close> statements: a block without a first date token, or without a
  second one after a good first, is skipped.\<close>

lemma parse_block_no_start:
  "search DATE_RE block = None \<Longrightarrow> parse_block gt block = Inr None"
  by (simp add: parse_block_def)

lemma parse_block_no_end:
  "search DATE_RE block = Some (mt, gs, rest) \<Longrightarrow> valid_js_date gs \<Longrightarrow>
   search DATE_RE rest = None \<Longrightarrow> parse_block gt block = Inr None"
  using parse_js_date_Inl_iff[of gs]
  by (cases "parse_js_date gs") (auto simp: parse_block_def)

text \<open>No such statement guards \<open>datetime\<close>: numbers it refuses, in the first token or in
  the second, leave the function as \<open>ValueError\<close>.\<close>

lemma parse_block_bad_start:
  "search DATE_RE block = Some (mt, gs, rest) \<Longrightarrow> \<not> valid_js_date gs \<Longrightarrow>
   parse_block gt block = Inl ValueError"
  using parse_js_date_Inl_iff[of gs]
  by (cases "parse_js_date gs") (auto simp: parse_block_def)

lemma parse_block_bad_end:
  "search DATE_RE block = Some (mt, gs, rest) \<Longrightarrow> valid_js_date gs \<Longrightarrow>
   search DATE_RE rest = Some (mt', gs', rest') \<Longrightarrow> \<not> valid_js_date gs' \<Longrightarrow>
   parse_block gt block = Inl ValueError"
  using parse_js_date_Inl_iff[of gs] parse_js_date_Inl_iff[of gs']
  by (cases "parse_js_date gs"; cases "parse_js_date gs'") (auto simp: parse_block_def)

text \<open>The first block that raises ends the loop, whatever was gathered before it.\<close>

lemma events_loop_raises:
  "parse_block gt b = Inl e \<Longrightarrow> \<forall>b' \<in> set pre. \<exists>r. parse_block gt b' = Inr r \<Longrightarrow>
   events_loop gt (pre @ b # post) acc = Inl e"
proof (induction pre arbitrary: acc)
  case Nil
  then show ?case by simp
next
  case (Cons p pre)
  then obtain r where "parse_block gt p = Inr r" by auto
  with Cons show ?case by (cases r) simp_all
qed

text \<open>
  C1.  \<open>extract_events\<close> is to skip every block it cannot use and never to raise.  A
  block whose end token has three numbers it does skip: the blob of that block alone
  gives the empty list.  On a blob of a good block followed by a block whose tokens name
  the zero-based month 12 it raises \<open>ValueError\<close> instead,
  \<open>datetime(2025, 13, 1, 10, 0)\<close> being refused inside \<open>_parse_js_date\<close>, and the record
  of the good block is lost with it.
\<close>

theorem extract_events_month_12_raises:
  "extract_events plain_text (PStr (js_block ''2025, 8, 19, 9, 0'' ''2025, 8, 19'' ''Lab'')) = Inr []
   \<and> extract_events plain_text
     (PStr (js_block ''2025, 8, 18, 9, 0'' ''2025, 8, 18, 10, 0'' ''Math''
            @ js_block ''2025, 12, 1, 10, 0'' ''2025, 12, 1, 11, 0'' ''Lab''))
     = Inl ValueError"
proof -
  have skipped: "extract_events plain_text
     (PStr (js_block ''2025, 8, 19, 9, 0'' ''2025, 8, 19'' ''Lab'')) = Inr []"
    by code_simp
  have raised: "extract_events plain_text
     (PStr (js_block ''2025, 8, 18, 9, 0'' ''2025, 8, 18, 10, 0'' ''Math''
            @ js_block ''2025, 12, 1, 10, 0'' ''2025, 12, 1, 11, 0'' ''Lab''))
     = Inl ValueError"
    by code_simp
  from skipped raised show ?thesis by (rule conjI)
qed

section \<open>The order of the published records\<close>

lemma sort_events_sorted: "sorted (map sort_by (sort_events evs))"
  by (simp add: sort_events_def)

lemma sort_events_mset: "mset (sort_events evs) = mset evs"
  by (simp add: sort_events_def)

lemma sort_events_stable:
  "filter (\<lambda>e. sort_by e = k) (sort_events evs) = filter (\<lambda>e. sort_by e = k) evs"
  by (simp add: sort_events_def sort_key_stable)

lemma sort_events_unique:
  assumes "distinct evs" "inj_on sort_by (set evs)" "distinct evs'" "set evs' = set evs"
  shows "sort_events evs' = sort_events evs"
proof (rule map_sorted_distinct_set_unique[where f = sort_by])
  show "inj_on sort_by (set (sort_events evs') \<union> set (sort_events evs))"
    using assms by (simp add: sort_events_def)
  show "sorted (map sort_by (sort_events evs'))" "sorted (map sort_by (sort_events evs))"
    by (rule sort_events_sorted)+
  show "distinct (map sort_by (sort_events evs'))"
    using assms by (simp add: sort_events_def distinct_map)
  show "distinct (map sort_by (sort_events evs))"
    using assms by (simp add: sort_events_def distinct_map)
  show "set (sort_events evs') = set (sort_events evs)"
    using assms by (simp add: sort_events_def)
qed

text \<open>Two classes with the same start and the same title but different ends have
  different keys in the merge and the same key in the sort: they come out in the order in
  which the windows delivered them.\<close>

theorem sort_events_depends_on_merge_order:
  "sort_events (fst (merge_week [class_at 10 12 ''X''] (merge_week [class_at 10 11 ''X''] ([], {}))))
     = [class_at 10 11 ''X'', class_at 10 12 ''X'']
   \<and> sort_events (fst (merge_week [class_at 10 11 ''X''] (merge_week [class_at 10 12 ''X''] ([], {}))))
     = [class_at 10 12 ''X'', class_at 10 11 ''X'']
   \<and> class_at 10 11 ''X'' \<noteq> class_at 10 12 ''X''"
  by (simp add: sort_events_def sort_by_def dt_key_def class_at_def event_key_def)

text \<open>
  C6, as the code has it.  \<open>refresh_cache\<close> sorts the merged records ascending by
  \<open>(start, summary)\<close>, start first and summary to break ties, keeping every record.  The
  sort is stable: records that agree on both start and summary stay in the order in which
  the merge met them.  So the output does not depend on that order whenever no two
  records of the set agree on both start and summary.
\<close>

theorem sort_events_order:
  "sorted (map sort_by (sort_events evs))
   \<and> mset (sort_events evs) = mset evs
   \<and> filter (\<lambda>e. sort_by e = k) (sort_events evs) = filter (\<lambda>e. sort_by e = k) evs
   \<and> (distinct evs \<and> inj_on sort_by (set evs) \<and> distinct evs' \<and> set evs' = set evs
        \<longrightarrow> sort_events evs' = sort_events evs)"
  using sort_events_sorted sort_events_mset sort_events_stable sort_events_unique
  by blast

theorem sort_events_order_witness:
  "sort_events [class_at 10 11 ''B'', class_at 10 11 ''A'', class_at 9 10 ''Z'']
     = [class_at 9 10 ''Z'', class_at 10 11 ''A'', class_at 10 11 ''B'']
   \<and> sort_events [class_at 10 11 ''A'', class_at 9 10 ''Z'', class_at 10 11 ''B'']
     = sort_events [class_at 10 11 ''B'', class_at 10 11 ''A'', class_at 9 10 ''Z'']"
proof -
  let ?evs = "[class_at 10 11 ''B'', class_at 10 11 ''A'', class_at 9 10 ''Z'']"
  let ?evs' = "[class_at 10 11 ''A'', class_at 9 10 ''Z'', class_at 10 11 ''B'']"
  have ex: "sort_events ?evs = [class_at 9 10 ''Z'', class_at 10 11 ''A'', class_at 10 11 ''B'']"
    by (simp add: sort_events_def sort_by_def dt_key_def class_at_def)
  have d: "distinct ?evs" "distinct ?evs'" "set ?evs' = set ?evs"
    by (auto simp: class_at_def)
  have i: "inj_on sort_by (set ?evs)"
    by (simp add: sort_by_def class_at_def)
  from sort_events_order[of ?evs _ ?evs'] d i
  have "sort_events ?evs' = sort_events ?evs" by blast
  with ex show ?thesis by simp
qed


section \<open>Merging the windows\<close>

lemma merge_week_append:
  "merge_week (xs @ ys) acc = merge_week ys (merge_week xs acc)"
proof (induction xs arbitrary: acc)
  case Nil
  then show ?case by (cases acc) simp
next
  case (Cons x xs)
  then show ?case by (cases acc) simp
qed

lemma windows_loop_merge:
  "windows_loop w wins acc = merge_week (concat (map (window_events w) wins)) acc"
proof (induction wins arbitrary: acc)
  case Nil
  then show ?case by (cases acc) simp
next
  case (Cons p wins)
  obtain i dt where p: "p = (i, dt)" by (cases p)
  obtain es seen where acc: "acc = (es, seen)" by (cases acc)
  show ?case
    unfolding p
    by (simp add: Cons.IH window_events_def merge_week_append acc split: sum.splits)
qed

lemma gather_merge: "gather w weeks = fst (merge_week (fetched w weeks) ([], {}))"
  by (simp add: gather_def fetched_def windows_loop_merge)

lemma merge_week_dedup_first:
  "seen = event_key ` set es \<Longrightarrow>
   fst (merge_week xs (es, seen)) = es @ dedup_first (filter (\<lambda>e. event_key e \<notin> seen) xs)"
proof (induction xs arbitrary: es seen)
  case Nil
  then show ?case by simp
next
  case (Cons x xs)
  show ?case
  proof (cases "event_key x \<in> seen")
    case True
    with Cons show ?thesis by simp
  next
    case False
    have f: "filter (\<lambda>e. event_key e \<notin> insert (event_key x) seen) xs
             = filter (\<lambda>e. event_key e \<noteq> event_key x) (filter (\<lambda>e. event_key e \<notin> seen) xs)"
      by (auto simp: filter_filter intro: filter_cong)
    have "insert (event_key x) seen = event_key ` set (es @ [x])"
      using Cons.prems by auto
    from Cons.IH[OF this] False f show ?thesis by simp
  qed
qed

lemma merge_week_seen:
  "snd (merge_week xs (es, seen)) = seen \<union> event_key ` set xs"
  by (induction xs arbitrary: es seen) auto

lemma merge_week_known:
  "event_key ` set xs \<subseteq> seen \<Longrightarrow> merge_week xs (es, seen) = (es, seen)"
  by (induction xs arbitrary: es seen) auto

lemma merge_week_twice:
  "merge_week xs (merge_week xs acc) = merge_week xs acc"
proof -
  obtain es seen where acc: "merge_week xs acc = (es, seen)" by (cases "merge_week xs acc")
  obtain es0 seen0 where a0: "acc = (es0, seen0)" by (cases acc)
  have "seen = seen0 \<union> event_key ` set xs"
    using merge_week_seen[of xs es0 seen0] acc a0 by simp
  then show ?thesis
    unfolding acc by (intro merge_week_known) auto
qed

lemma dedup_first_keys: "event_key ` set (dedup_first xs) = event_key ` set xs"
proof (induction xs rule: dedup_first.induct)
  case 1
  then show ?case by simp
next
  case (2 x xs)
  then show ?case by auto
qed

lemma dedup_first_subset: "set (dedup_first xs) \<subseteq> set xs"
  by (induction xs rule: dedup_first.induct) auto

lemma dedup_first_distinct: "distinct (map event_key (dedup_first xs))"
proof (induction xs rule: dedup_first.induct)
  case 1
  then show ?case by simp
next
  case (2 x xs)
  have "event_key x \<notin> event_key ` set (dedup_first (filter (\<lambda>e. event_key e \<noteq> event_key x) xs))"
    unfolding dedup_first_keys by auto
  with 2 show ?case by simp
qed

lemma find_filter_implied:
  "(\<And>e. P e \<Longrightarrow> Q e) \<Longrightarrow> find P (filter Q xs) = find P xs"
  by (induction xs) auto

lemma dedup_first_find:
  "ev \<in> set (dedup_first xs) \<Longrightarrow> find (\<lambda>e. event_key e = event_key ev) xs = Some ev"
proof (induction xs rule: dedup_first.induct)
  case 1
  then show ?case by simp
next
  case (2 x xs)
  show ?case
  proof (cases "ev = x")
    case True
    then show ?thesis by simp
  next
    case False
    with 2 have m: "ev \<in> set (dedup_first (filter (\<lambda>e. event_key e \<noteq> event_key x) xs))"
      by simp
    with dedup_first_subset have "ev \<in> set (filter (\<lambda>e. event_key e \<noteq> event_key x) xs)"
      by blast
    then have ne: "event_key ev \<noteq> event_key x" by simp
    from 2(1)[OF m]
    have "find (\<lambda>e. event_key e = event_key ev) (filter (\<lambda>e. event_key e \<noteq> event_key x) xs) = Some ev" .
    moreover have "find (\<lambda>e. event_key e = event_key ev) (filter (\<lambda>e. event_key e \<noteq> event_key x) xs)
                   = find (\<lambda>e. event_key e = event_key ev) xs"
      using ne by (intro find_filter_implied) auto
    ultimately show ?thesis using ne by auto
  qed
qed

lemma distinct_key_count:
  "distinct (map f xs) \<Longrightarrow> x \<in> set xs \<Longrightarrow> length (filter (\<lambda>e. f e = f x) xs) = 1"
proof (induction xs)
  case Nil
  then show ?case by simp
next
  case (Cons a xs)
  show ?case
  proof (cases "a = x")
    case True
    with Cons.prems have "f x \<notin> f ` set xs" by simp
    then have "filter (\<lambda>e. f e = f x) xs = []"
      unfolding filter_empty_conv by (metis imageI)
    with True show ?thesis by simp
  next
    case False
    with Cons show ?thesis by (auto simp: image_iff)
  qed
qed

text \<open>
  C5.  The merge of a cycle, over any probe instants, keeps, of all records fetched in
  window-processing order, the first one of every key \<open>(start, end, summary)\<close> and
  no other: the merged records are
  the first occurrences in that order, every fetched key is there exactly once, and each
  record kept is the first fetched record of its key.  Merging the records of a window a
  second time changes nothing.
\<close>

theorem gather_dedup_first:
  "gather w weeks = dedup_first (fetched w weeks)
   \<and> distinct (map event_key (gather w weeks))
   \<and> (\<forall>ev \<in> set (fetched w weeks).
         length (filter (\<lambda>e. event_key e = event_key ev) (gather w weeks)) = 1)
   \<and> (\<forall>ev \<in> set (gather w weeks).
         find (\<lambda>e. event_key e = event_key ev) (fetched w weeks) = Some ev)
   \<and> merge_week evs (merge_week evs acc) = merge_week evs acc"
proof -
  have g: "gather w weeks = dedup_first (fetched w weeks)"
    using merge_week_dedup_first[of "{}" "[]" "fetched w weeks"]
    by (simp add: gather_merge)
  have d: "distinct (map event_key (gather w weeks))"
    unfolding g by (rule dedup_first_distinct)
  have one: "length (filter (\<lambda>e. event_key e = event_key ev) (gather w weeks)) = 1"
    if "ev \<in> set (fetched w weeks)" for ev
  proof -
    from that have "event_key ev \<in> event_key ` set (gather w weeks)"
      unfolding g dedup_first_keys by simp
    then obtain ev' where ev': "ev' \<in> set (gather w weeks)" "event_key ev' = event_key ev"
      by auto
    from distinct_key_count[OF d ev'(1)] ev'(2) show ?thesis by simp
  qed
  have first: "find (\<lambda>e. event_key e = event_key ev) (fetched w weeks) = Some ev"
    if "ev \<in> set (gather w weeks)" for ev
    using that unfolding g by (rule dedup_first_find)
  from g d one first merge_week_twice show ?thesis by blast
qed

lemma fetched_same_class:
  "fetched same_class_every_week [1000, 604800001000]
     = [class_at 9 10 ''Math'', class_at 9 10 ''Math'']"
  by code_simp

theorem gather_dedup_first_witness:
  "probe_instants (default_config\<lparr>WEEKS_AFTER := 1\<rparr>) same_class_every_week
     = Inr [1000, 604800001000]
   \<and> gather same_class_every_week [1000, 604800001000] = [class_at 9 10 ''Math'']"
proof -
  have p: "probe_instants (default_config\<lparr>WEEKS_AFTER := 1\<rparr>) same_class_every_week
             = Inr [1000, 604800001000]"
    by code_simp
  show ?thesis
    using gather_dedup_first[of same_class_every_week "[1000, 604800001000]"] p
    by (simp add: fetched_same_class)
qed

section \<open>Months\<close>

lemma parse_js_date_Inr:
  "parse_js_date gs = Inr t \<Longrightarrow>
   \<exists>y m d hh mi. gs = [y, m, d, hh, mi] \<and> py_int m \<le> 11
     \<and> t = Datetime (py_int y) (py_int m + 1) (py_int d) (py_int hh) (py_int mi)"
proof -
  assume a: "parse_js_date gs = Inr t"
  then obtain y m d hh mi where gs: "gs = [y, m, d, hh, mi]"
    by (auto simp: parse_js_date_def split: list.splits)
  with a show ?thesis
    by (auto simp: parse_js_date_def mk_datetime_def split: if_splits)
qed

lemma parse_js_date_valid:
  "valid_js_date [y, m, d, hh, mi] \<Longrightarrow>
   parse_js_date [y, m, d, hh, mi]
     = Inr (Datetime (py_int y) (py_int m + 1) (py_int d) (py_int hh) (py_int mi))"
  by (simp add: valid_js_date_def parse_js_date_def mk_datetime_def)

text \<open>
  C8.  A record comes out of a block only through two date tokens whose zero-based month
  numbers \<open>m\<close> are at most 11, and its start and end carry the months \<open>m + 1\<close> of the
  first and of the second token.  Conversely a block whose two tokens hold numbers that
  \<open>datetime\<close> accepts, and whose title and body the markup parser takes, yields a record
  with exactly those timestamps, the month moved up by one.
\<close>

theorem parse_block_month:
  "(parse_block gt block = Inr (Some ev) \<longrightarrow>
      (\<exists>mt1 y1 m1 d1 h1 mi1 rest1 mt2 y2 m2 d2 h2 mi2 rest2.
          search DATE_RE block = Some (mt1, [y1, m1, d1, h1, mi1], rest1)
        \<and> search DATE_RE rest1 = Some (mt2, [y2, m2, d2, h2, mi2], rest2)
        \<and> py_int m1 \<le> 11 \<and> py_int m2 \<le> 11
        \<and> month (ev_start ev) = py_int m1 + 1
        \<and> month (ev_end ev) = py_int m2 + 1))
   \<and> (search DATE_RE block = Some (mt, [y, m, d, h, mi], rest)
        \<and> search DATE_RE rest = Some (mt', [y', m', d', h', mi'], rest')
        \<and> valid_js_date [y, m, d, h, mi] \<and> valid_js_date [y', m', d', h', mi']
        \<and> strip_html gt (field_html ''title'' block) = Inr title_txt
        \<and> strip_html gt (field_html ''body'' block) = Inr body_txt \<longrightarrow>
      (\<exists>ev'. parse_block gt block = Inr (Some ev')
        \<and> ev_start ev' = Datetime (py_int y) (py_int m + 1) (py_int d) (py_int h) (py_int mi)
        \<and> ev_end ev' = Datetime (py_int y') (py_int m' + 1) (py_int d') (py_int h') (py_int mi')))"
proof (intro conjI impI)
  assume a: "parse_block gt block = Inr (Some ev)"
  then obtain mt1 gs1 rest1 where s1: "search DATE_RE block = Some (mt1, gs1, rest1)"
    by (auto simp: parse_block_def split: option.splits)
  with a obtain start where p1: "parse_js_date gs1 = Inr start"
    by (auto simp: parse_block_def split: sum.splits)
  with a s1 obtain mt2 gs2 rest2 where s2: "search DATE_RE rest1 = Some (mt2, gs2, rest2)"
    by (auto simp: parse_block_def split: option.splits)
  with a s1 p1 obtain stop where p2: "parse_js_date gs2 = Inr stop"
    by (auto simp: parse_block_def split: sum.splits)
  from a s1 p1 s2 p2 have ev: "make_event gt block start stop = Inr ev"
    by (simp add: parse_block_def split: sum.splits)
  from parse_js_date_Inr[OF p1] obtain y1 m1 d1 h1 mi1 where
    g1: "gs1 = [y1, m1, d1, h1, mi1]" "py_int m1 \<le> 11" "month start = py_int m1 + 1"
    by auto
  from parse_js_date_Inr[OF p2] obtain y2 m2 d2 h2 mi2 where
    g2: "gs2 = [y2, m2, d2, h2, mi2]" "py_int m2 \<le> 11" "month stop = py_int m2 + 1"
    by auto
  from ev have "ev_start ev = start" "ev_end ev = stop"
    by (auto simp: make_event_def split: sum.splits)
  then have "month (ev_start ev) = py_int m1 + 1" "month (ev_end ev) = py_int m2 + 1"
    using g1 g2 by simp_all
  with s1 s2 g1 g2
  show "\<exists>mt1 y1 m1 d1 h1 mi1 rest1 mt2 y2 m2 d2 h2 mi2 rest2.
          search DATE_RE block = Some (mt1, [y1, m1, d1, h1, mi1], rest1)
        \<and> search DATE_RE rest1 = Some (mt2, [y2, m2, d2, h2, mi2], rest2)
        \<and> py_int m1 \<le> 11 \<and> py_int m2 \<le> 11
        \<and> month (ev_start ev) = py_int m1 + 1
        \<and> month (ev_end ev) = py_int m2 + 1"
    by blast
next
  assume b: "search DATE_RE block = Some (mt, [y, m, d, h, mi], rest)
        \<and> search DATE_RE rest = Some (mt', [y', m', d', h', mi'], rest')
        \<and> valid_js_date [y, m, d, h, mi] \<and> valid_js_date [y', m', d', h', mi']
        \<and> strip_html gt (field_html ''title'' block) = Inr title_txt
        \<and> strip_html gt (field_html ''body'' block) = Inr body_txt"
  then show "\<exists>ev'. parse_block gt block = Inr (Some ev')
        \<and> ev_start ev' = Datetime (py_int y) (py_int m + 1) (py_int d) (py_int h) (py_int mi)
        \<and> ev_end ev' = Datetime (py_int y') (py_int m' + 1) (py_int d') (py_int h') (py_int mi')"
    by (simp add: parse_block_def parse_js_date_valid make_event_def)
qed

theorem parse_block_month_witness:
  "\<exists>ev. parse_block plain_text (js_block ''2025, 0, 31, 9, 0'' ''2025, 11, 31, 10, 5'' ''Math'')
          = Inr (Some ev)
        \<and> ev_start ev = Datetime 2025 1 31 9 0
        \<and> ev_end ev = Datetime 2025 12 31 10 5"
proof -
  let ?b = "js_block ''2025, 0, 31, 9, 0'' ''2025, 11, 31, 10, 5'' ''Math''"
  let ?rest = "'', '' @ [CHR 0x27] @ ''end'' @ [CHR 0x27] @ '': new Date(2025, 11, 31, 10, 5), ''
     @ [CHR 0x27] @ ''title'' @ [CHR 0x27] @ '': '' @ [CHR 0x27] @ ''Math'' @ [CHR 0x27] @ ''}''"
  let ?rest' = "'', '' @ [CHR 0x27] @ ''title'' @ [CHR 0x27] @ '': '' @ [CHR 0x27] @ ''Math'' @ [CHR 0x27] @ ''}''"
  have s1: "search DATE_RE ?b
            = Some (''new Date(2025, 0, 31, 9, 0)'', [''2025'', ''0'', ''31'', ''9'', ''0''], ?rest)"
    by code_simp
  have s2: "search DATE_RE ?rest
            = Some (''new Date(2025, 11, 31, 10, 5)'', [''2025'', ''11'', ''31'', ''10'', ''5''], ?rest')"
    by code_simp
  have v: "valid_js_date [''2025'', ''0'', ''31'', ''9'', ''0'']"
          "valid_js_date [''2025'', ''11'', ''31'', ''10'', ''5'']"
    by code_simp+
  have t: "strip_html plain_text (field_html ''title'' ?b) = Inr ''Math''"
    by code_simp
  have bd: "strip_html plain_text (field_html ''body'' ?b) = Inr []"
    by code_simp
  have n: "py_int ''2025'' = 2025" "py_int ''0'' = 0" "py_int ''31'' = 31" "py_int ''9'' = 9"
          "py_int ''11'' = 11" "py_int ''10'' = 10" "py_int ''5'' = 5"
    by code_simp+
  from parse_block_month[where gt = plain_text and block = ?b
        and y = "''2025''" and m = "''0''" and d = "''31''" and h = "''9''" and mi = "''0''"
        and rest = ?rest and y' = "''2025''" and m' = "''11''" and d' = "''31''"
        and h' = "''10''" and mi' = "''5''" and rest' = ?rest'
        and title_txt = "''Math''" and body_txt = "[]"] s1 s2 v t bd
  show ?thesis by (simp add: n)
qed

section \<open>Concurrent handlers\<close>

lemma step_check_absent:
  assumes "i < length hs" "at (hs ! i) = AtCheck"
      and "needs_refresh (now_calendar (world (hs ! i))) st = Inr True"
  shows "step cfg \<lparr> shared = st, handlers = hs, cycles = n \<rparr> i
         = \<lparr> shared = st, handlers = hs[i := (hs ! i)\<lparr>at := InRefresh\<rparr>], cycles = n \<rparr>"
  using assms by (simp add: step_def step_handler_def)

text \<open>After the first \<open>k\<close> of the handlers have each run the test of line 192 on a cache
  that every one of them sees as absent or expired, all \<open>k\<close> are inside
  \<open>refresh_cache\<close>.\<close>

lemma run_checks:
  assumes "\<forall>w \<in> set ws. needs_refresh (now_calendar w) st = Inr True"
      and "k \<le> length ws"
  shows "run cfg [0..<k] (start_system st ws)
         = \<lparr> shared = st,
             handlers = map (\<lambda>w. \<lparr> at = InRefresh, world = w \<rparr>) (take k ws)
                        @ map (\<lambda>w. \<lparr> at = AtCheck, world = w \<rparr>) (drop k ws),
             cycles = 0 \<rparr>"
  using assms(2)
proof (induction k)
  case 0
  then show ?case by (simp add: run_def start_system_def)
next
  case (Suc k)
  let ?hs = "map (\<lambda>w. \<lparr> at = InRefresh, world = w \<rparr>) (take k ws)
             @ map (\<lambda>w. \<lparr> at = AtCheck, world = w \<rparr>) (drop k ws)"
  from Suc.prems have k: "k < length ws" by simp
  then have len: "k < length ?hs" by simp
  have nth: "?hs ! k = \<lparr> at = AtCheck, world = ws ! k \<rparr>"
    using k by (simp add: nth_append)
  have "ws ! k \<in> set ws" using k by simp
  with assms(1) have need: "needs_refresh (now_calendar (world (?hs ! k))) st = Inr True"
    unfolding nth by simp
  have upd: "?hs[k := (?hs ! k)\<lparr>at := InRefresh\<rparr>]
             = map (\<lambda>w. \<lparr> at = InRefresh, world = w \<rparr>) (take (Suc k) ws)
               @ map (\<lambda>w. \<lparr> at = AtCheck, world = w \<rparr>) (drop (Suc k) ws)"
    unfolding nth using k
    by (simp add: list_update_append take_Suc_conv_app_nth Cons_nth_drop_Suc[symmetric])
  have "run cfg [0..<Suc k] (start_system st ws)
        = step cfg (run cfg [0..<k] (start_system st ws)) k"
    by (simp add: run_def)
  also have "\<dots> = step cfg \<lparr> shared = st, handlers = ?hs, cycles = 0 \<rparr> k"
    using Suc.IH k by simp
  also have "\<dots> = \<lparr> shared = st, handlers = ?hs[k := (?hs ! k)\<lparr>at := InRefresh\<rparr>], cycles = 0 \<rparr>"
    using len nth need by (intro step_check_absent) simp_all
  finally show ?case unfolding upd .
qed

text \<open>A handler inside \<open>refresh_cache\<close> that takes its step runs one refresh cycle,
  whatever the others have done to the cache meanwhile, and is inside no longer.\<close>

lemma step_refresh:
  assumes "i < length (handlers sys)" "at (handlers sys ! i) = InRefresh"
  shows "cycles (step cfg sys i) = Suc (cycles sys)
         \<and> length (handlers (step cfg sys i)) = length (handlers sys)
         \<and> at (handlers (step cfg sys i) ! i) \<noteq> InRefresh
         \<and> (\<forall>j. j \<noteq> i \<longrightarrow> handlers (step cfg sys i) ! j = handlers sys ! j)"
proof (cases "refresh_cache cfg (world (handlers sys ! i)) (shared sys)")
  case (Pair r st')
  with assms show ?thesis
    by (cases r) (simp_all add: step_def step_handler_def)
qed

lemma run_refreshes:
  assumes "\<forall>i < length (handlers sys). at (handlers sys ! i) = InRefresh"
      and "k \<le> length (handlers sys)"
  shows "cycles (run cfg [0..<k] sys) = cycles sys + k
         \<and> length (handlers (run cfg [0..<k] sys)) = length (handlers sys)
         \<and> (\<forall>i < length (handlers sys).
               (at (handlers (run cfg [0..<k] sys) ! i) = InRefresh) = (k \<le> i))"
  using assms(2)
proof (induction k)
  case 0
  with assms(1) show ?case by (simp add: run_def)
next
  case (Suc k)
  let ?s = "run cfg [0..<k] sys"
  from Suc have ih: "cycles ?s = cycles sys + k" "length (handlers ?s) = length (handlers sys)"
    "\<forall>i < length (handlers sys). (at (handlers ?s ! i) = InRefresh) = (k \<le> i)"
    by simp_all
  from Suc.prems have k: "k < length (handlers ?s)" using ih(2) by simp
  with ih(2,3) have atk: "at (handlers ?s ! k) = InRefresh" by simp
  have r: "run cfg [0..<Suc k] sys = step cfg ?s k"
    by (simp add: run_def)
  note st = step_refresh[OF k atk, of cfg]
  have "(at (handlers (step cfg ?s k) ! i) = InRefresh) = (Suc k \<le> i)"
    if "i < length (handlers sys)" for i
  proof (cases "i = k")
    case True
    with st show ?thesis by simp
  next
    case False
    with st have "handlers (step cfg ?s k) ! i = handlers ?s ! i" by simp
    with ih(3) that False show ?thesis by auto
  qed
  with st ih(1,2) show ?case
    unfolding r by simp
qed

text \<open>Two handlers on the initial cache: once both have run the test, both are inside
  \<open>refresh_cache\<close>; run to the end, two refresh cycles have taken place.\<close>

theorem two_handlers_two_cycles:
  "in_flight (run default_config [0, 1] (start_system initial_cache [offline, offline])) = 2
   \<and> cycles (run default_config [0, 1, 0, 1, 0, 1] (start_system initial_cache [offline, offline])) = 2
   \<and> map at (handlers (run default_config [0, 1, 0, 1, 0, 1] (start_system initial_cache [offline, offline])))
       = [Finished (Inr ''VCALENDAR''), Finished (Inr ''VCALENDAR'')]"
  by code_simp

text \<open>
  C2, as the code has it.  The handler takes no lock, and nothing records that a refresh
  is under way: every call of \<open>calendar\<close> whose test of line 192 finds the cache absent or
  expired enters \<open>refresh_cache\<close> on its own.  When \<open>N\<close> handlers have each run that test
  before any of them has published, all \<open>N\<close> are inside \<open>refresh_cache\<close> at the same time
  and the shared cache is still what it was; when each of them has gone on by its next
  step, \<open>N\<close> refresh cycles have run, one for every handler, and none is under way.
\<close>

theorem every_observer_refreshes:
  assumes "\<forall>w \<in> set ws. needs_refresh (now_calendar w) st = Inr True"
  shows "in_flight (run cfg [0..<length ws] (start_system st ws)) = length ws
         \<and> cycles (run cfg [0..<length ws] (start_system st ws)) = 0
         \<and> shared (run cfg [0..<length ws] (start_system st ws)) = st
         \<and> cycles (run cfg ([0..<length ws] @ [0..<length ws]) (start_system st ws)) = length ws
         \<and> in_flight (run cfg ([0..<length ws] @ [0..<length ws]) (start_system st ws)) = 0"
proof -
  let ?s1 = "run cfg [0..<length ws] (start_system st ws)"
  have s1: "?s1 = \<lparr> shared = st, handlers = map (\<lambda>w. \<lparr> at = InRefresh, world = w \<rparr>) ws, cycles = 0 \<rparr>"
    using run_checks[OF assms, of "length ws" cfg] by simp
  then have first: "in_flight ?s1 = length ws" "cycles ?s1 = 0" "shared ?s1 = st"
    by (simp_all add: in_flight_def filter_map comp_def)
  have len: "length (handlers ?s1) = length ws" and all: "\<forall>i < length (handlers ?s1). at (handlers ?s1 ! i) = InRefresh"
    unfolding s1 by simp_all
  have app: "run cfg ([0..<length ws] @ [0..<length ws]) (start_system st ws)
             = run cfg [0..<length ws] ?s1"
    by (simp add: run_def)
  from run_refreshes[OF all, of "length ws" cfg] len
  have c: "cycles (run cfg [0..<length ws] ?s1) = length ws"
    and l: "length (handlers (run cfg [0..<length ws] ?s1)) = length ws"
    and n: "\<forall>i < length ws. at (handlers (run cfg [0..<length ws] ?s1) ! i) \<noteq> InRefresh"
    using first(2) by auto
  have "filter (\<lambda>h. at h = InRefresh) (handlers (run cfg [0..<length ws] ?s1)) = []"
    unfolding filter_empty_conv using n l by (metis in_set_conv_nth)
  then have "in_flight (run cfg [0..<length ws] ?s1) = 0"
    by (simp add: in_flight_def)
  with first c show ?thesis unfolding app by simp
qed

theorem every_observer_refreshes_witness:
  "in_flight (run default_config [0..<3] (start_system initial_cache [offline, offline, offline])) = 3
   \<and> cycles (run default_config ([0..<3] @ [0..<3]) (start_system initial_cache [offline, offline, offline])) = 3"
proof -
  have a: "\<forall>w \<in> set [offline, offline, offline]. needs_refresh (now_calendar w) initial_cache = Inr True"
    by (simp add: needs_refresh_def bytes_truthy_def initial_cache_def)
  show ?thesis
    using every_observer_refreshes[OF a, of default_config] by (simp add: numeral_3_eq_3)
qed

section \<open>The room heuristic\<close>


subsection \<open>Facts about the matcher\<close>










subsection \<open>What \<open>SALA_RE\<close> matches\<close>











subsection \<open>The location of a record\<close>






end
